theory Spec2Isabelle
  imports Main
begin

section \<open>LDAP messages\<close>

text \<open>
  The server core handles values of the message library's types \<open>LDAPMessage\<close> and
  \<open>ProtocolOp\<close>. Only what the dispatcher inspects is kept: the operation kind, the
  target id of an Abandon, the name of an extended request, and the three fields the
  server sets on an extended response.
\<close>

datatype ProtocolOp =
    BindRequest string string
  | BindResponse int
  | UnbindRequest
  | SearchRequest string
  | SearchResultEntry string
  | SearchResultDone int
  | ModifyRequest string
  | ModifyResponse int
  | AddRequest string
  | AddResponse int
  | DelRequest string
  | DelResponse int
  | CompareRequest string
  | CompareResponse int
  | AbandonRequest int
  | ExtendedRequest string
  | ExtendedResponse int string string

record LDAPMessage =
  messageID :: int
  protocolOp :: ProtocolOp

text \<open>A fresh message carries Go's zero value as its id until \<open>SetMessageID\<close> is called.\<close>

definition NewLDAPMessageWithProtocolOp :: "ProtocolOp \<Rightarrow> LDAPMessage" where
  "NewLDAPMessageWithProtocolOp po = \<lparr>messageID = 0, protocolOp = po\<rparr>"

definition SetMessageID :: "int \<Rightarrow> LDAPMessage \<Rightarrow> LDAPMessage" where
  "SetMessageID n m = m\<lparr>messageID := n\<rparr>"

text \<open>Modelled from the spec: the constant \<open>LDAPResultUnwillingToPerform\<close>, declared
  outside the files at hand; section 6 of the specification gives its value.\<close>

definition LDAPResultUnwillingToPerform :: int where
  "LDAPResultUnwillingToPerform = 53"

text \<open>Modelled from the spec: the OID constant \<open>NoticeOfDisconnection\<close>, declared
  outside the files at hand; section 6 of the specification gives its value.\<close>

definition NoticeOfDisconnection :: string where
  "NoticeOfDisconnection = ''1.3.6.1.4.1.1466.20036''"

text \<open>Modelled from the spec: the OID constant \<open>NoticeOfStartTLS\<close>, declared
  outside the files at hand; section 6 of the specification gives its value.\<close>

definition NoticeOfStartTLS :: string where
  "NoticeOfStartTLS = ''1.3.6.1.4.1.1466.20037''"

text \<open>Modelled from the spec: the constructor \<open>NewExtendedResponse\<close> and the two
  setters used by the shutdown watcher, declared outside the files at hand; the
  specification describes the response they build (result code, diagnostic message,
  response name).\<close>

definition NewExtendedResponse :: "int \<Rightarrow> ProtocolOp" where
  "NewExtendedResponse code = ExtendedResponse code [] []"

fun SetDiagnosticMessage :: "string \<Rightarrow> ProtocolOp \<Rightarrow> ProtocolOp" where
  "SetDiagnosticMessage d (ExtendedResponse c _ n) = ExtendedResponse c d n"
| "SetDiagnosticMessage d po = po"

fun SetResponseName :: "string \<Rightarrow> ProtocolOp \<Rightarrow> ProtocolOp" where
  "SetResponseName n (ExtendedResponse c d _) = ExtendedResponse c d n"
| "SetResponseName n po = po"

section \<open>Channels, wait groups and panics of the Go runtime\<close>

text \<open>
  A channel variable is nil until \<open>make\<close>, then open, then closed. All channels of the
  client are unbuffered, so a send is a hand-over to a receiver that is waiting.
  Closing a nil or a closed channel panics, and so does a send on a closed channel;
  a send or a receive on a nil channel blocks forever. A wait-group counter that
  would go negative panics.
\<close>

datatype chan = ChNil | ChOpen | ChClosed

datatype panic =
    CloseOfNilChannel
  | CloseOfClosedChannel
  | SendOnClosedChannel
  | NegativeWaitGroupCounter

fun chan_close :: "chan \<Rightarrow> panic + chan" where
  "chan_close ChNil = Inl CloseOfNilChannel"
| "chan_close ChOpen = Inr ChClosed"
| "chan_close ChClosed = Inl CloseOfClosedChannel"

section \<open>The client and its tasks\<close>

type_synonym hid = nat

text \<open>Where a request processor (one call of \<open>ProcessRequestMessage\<close>) stands; the
  argument is the message id it extracted.\<close>

datatype request_pc =
    HStarted int
  | HServing int
  | HReturned int
  | HDeregistered int
  | HFinished

text \<open>Where \<open>serve\<close> and its deferred \<open>close\<close> stand: the name is the statement about
  to run. \<open>DInline h\<close> is the dispatch task running request processor \<open>h\<close> itself.\<close>

datatype serve_pc =
    DInit
  | DLoop
  | DInline hid
  | DEmitClosing
  | DReaderWake
  | DCancelAll
  | DJoinWait
  | DCloseQueue
  | DWaitWriteDone
  | DCloseSocket
  | DReleaseServer
  | DExit

datatype writer_pc = WrIdle | WrRecv | WrWrite LDAPMessage | WrExit

datatype watch_pc = WtIdle | WtSelect | WtSend | WtDone | WtWake | WtExit

record client =
  chanOut :: chan
  wg :: int
  closing :: chan
  requestCancel :: "(int \<rightharpoonup> hid) option"
  writeDone :: chan
  rwc_closed :: nat
  readDeadlines :: nat
  wire :: "LDAPMessage list"
  logged :: "LDAPMessage list"
  srv_chDone :: chan
  srv_wg :: int
  serve_pc :: serve_pc
  writer_pc :: writer_pc
  watch_pc :: watch_pc
  requests :: "hid \<rightharpoonup> request_pc"
  next_hid :: hid
  cancelled :: "hid set"
  panicked :: "panic option"

text \<open>The client as \<open>Server.Serve\<close> hands it to \<open>serve\<close>: every channel of the client
  is still nil, the request map is nil, the server's counter holds this client, and
  the server's \<open>chDone\<close> was made by \<open>NewServer\<close>.\<close>

definition new_client :: client where
  "new_client = \<lparr>chanOut = ChNil, wg = 0, closing = ChNil, requestCancel = None,
     writeDone = ChNil, rwc_closed = 0, readDeadlines = 0, wire = [], logged = [],
     srv_chDone = ChOpen, srv_wg = 1, serve_pc = DInit, writer_pc = WrIdle,
     watch_pc = WtIdle, requests = Map.empty, next_hid = 0, cancelled = {},
     panicked = None\<rparr>"

definition panics :: "panic \<Rightarrow> client \<Rightarrow> client" where
  "panics p c = c\<lparr>panicked := Some p\<rparr>"

text \<open>\<open>c.wg.Add(1)\<close> and \<open>c.wg.Done()\<close>.\<close>

definition wg_Add :: "client \<Rightarrow> client" where
  "wg_Add c = c\<lparr>wg := wg c + 1\<rparr>"

definition wg_Done :: "client \<Rightarrow> client" where
  "wg_Done c = (if wg c \<le> 0 then panics NegativeWaitGroupCounter c else c\<lparr>wg := wg c - 1\<rparr>)"

text \<open>\<open>c.chanOut <- m\<close>: \<open>None\<close> is a sender that cannot proceed yet (nil channel, or no
  writer waiting to receive).\<close>

definition chanOut_send :: "LDAPMessage \<Rightarrow> client \<Rightarrow> client option" where
  "chanOut_send m c =
     (case chanOut c of
        ChNil \<Rightarrow> None
      | ChClosed \<Rightarrow> Some (panics SendOnClosedChannel c)
      | ChOpen \<Rightarrow> if writer_pc c = WrRecv then Some (c\<lparr>writer_pc := WrWrite m\<rparr>) else None)"

subsection \<open>\<open>responseWriterImpl.Write\<close>\<close>

record responseWriterImpl =
  w_messageID :: int

definition wrap :: "responseWriterImpl \<Rightarrow> ProtocolOp \<Rightarrow> LDAPMessage" where
  "wrap w po = SetMessageID (w_messageID w) (NewLDAPMessageWithProtocolOp po)"

definition Write :: "responseWriterImpl \<Rightarrow> ProtocolOp \<Rightarrow> client \<Rightarrow> client option" where
  "Write w po c = chanOut_send (wrap w po) c"

subsection \<open>\<open>client.writeMessage\<close> and the writer task\<close>

text \<open>The message is encoded and logged, then its bytes go to the buffered writer and
  are flushed to the socket. The errors of the write and of the flush are dropped: the
  argument says whether they succeeded (they fail on a closed socket, on a peer that is
  gone, or once the write deadline has expired), and a failed write leaves the wire as
  it is.\<close>

definition writeMessage :: "bool \<Rightarrow> LDAPMessage \<Rightarrow> client \<Rightarrow> client" where
  "writeMessage ok m c =
     c\<lparr>logged := logged c @ [m],
       wire := (if ok \<and> rwc_closed c = 0 then wire c @ [m] else wire c)\<rparr>"

definition writer_write :: "bool \<Rightarrow> client \<Rightarrow> client option" where
  "writer_write ok c =
     (case writer_pc c of
        WrWrite m \<Rightarrow> Some ((writeMessage ok m c)\<lparr>writer_pc := WrRecv\<rparr>)
      | _ \<Rightarrow> None)"

definition writer_exit :: "client \<Rightarrow> client option" where
  "writer_exit c =
     (if writer_pc c = WrRecv \<and> chanOut c = ChClosed
      then Some (case chan_close (writeDone c) of
                   Inl p \<Rightarrow> panics p c
                 | Inr ch \<Rightarrow> c\<lparr>writeDone := ch, writer_pc := WrExit\<rparr>)
      else None)"

subsection \<open>\<open>client.cancelMessageID\<close>\<close>

definition registry :: "client \<Rightarrow> (int \<rightharpoonup> hid)" where
  "registry c = (case requestCancel c of None \<Rightarrow> Map.empty | Some r \<Rightarrow> r)"

definition cancelMessageID :: "int \<Rightarrow> client \<Rightarrow> client" where
  "cancelMessageID t c =
     (case registry c t of
        Some h \<Rightarrow> c\<lparr>cancelled := insert h (cancelled c),
                   requestCancel := map_option (\<lambda>r. r(t := None)) (requestCancel c)\<rparr>
      | None \<Rightarrow> c)"

subsection \<open>\<open>client.ProcessRequestMessage\<close>\<close>

text \<open>The function runs in five pieces, each atomic: the registration under the lock,
  any number of writes by the handler, the return of \<open>ServeLDAP\<close>, the deferred
  deletion under the lock, and the deferred \<open>cancelCtx\<close> with \<open>wg.Done\<close>.\<close>

definition process_register :: "hid \<Rightarrow> client \<Rightarrow> client option" where
  "process_register h c =
     (case requests c h of
        Some (HStarted mid) \<Rightarrow>
          Some (c\<lparr>requestCancel := Some ((registry c)(mid \<mapsto> h)),
                  requests := (requests c)(h \<mapsto> HServing mid)\<rparr>)
      | _ \<Rightarrow> None)"

definition process_write :: "hid \<Rightarrow> ProtocolOp \<Rightarrow> client \<Rightarrow> client option" where
  "process_write h po c =
     (case requests c h of
        Some (HServing mid) \<Rightarrow> Write \<lparr>w_messageID = mid\<rparr> po c
      | _ \<Rightarrow> None)"

definition process_return :: "hid \<Rightarrow> client \<Rightarrow> client option" where
  "process_return h c =
     (case requests c h of
        Some (HServing mid) \<Rightarrow> Some (c\<lparr>requests := (requests c)(h \<mapsto> HReturned mid)\<rparr>)
      | _ \<Rightarrow> None)"

definition process_deregister :: "hid \<Rightarrow> client \<Rightarrow> client option" where
  "process_deregister h c =
     (case requests c h of
        Some (HReturned mid) \<Rightarrow>
          Some (c\<lparr>requestCancel := map_option (\<lambda>r. r(mid := None)) (requestCancel c),
                  requests := (requests c)(h \<mapsto> HDeregistered mid)\<rparr>)
      | _ \<Rightarrow> None)"

definition process_done :: "hid \<Rightarrow> client \<Rightarrow> client option" where
  "process_done h c =
     (case requests c h of
        Some (HDeregistered mid) \<Rightarrow>
          Some (let c1 = wg_Done (c\<lparr>cancelled := insert h (cancelled c)\<rparr>)
                in if panicked c1 \<noteq> None then c1
                   else c1\<lparr>requests := (requests c)(h \<mapsto> HFinished),
                           serve_pc := (if serve_pc c = DInline h then DLoop else serve_pc c)\<rparr>)
      | _ \<Rightarrow> None)"

subsection \<open>\<open>client.serve\<close>\<close>

text \<open>The argument says whether \<open>HandleConnection\<close> returned a handler.\<close>

definition serve_begin :: "bool \<Rightarrow> client \<Rightarrow> client" where
  "serve_begin handler c =
     (let c1 = c\<lparr>closing := ChOpen\<rparr>
      in if \<not> handler then c1\<lparr>serve_pc := DEmitClosing\<rparr>
         else c1\<lparr>chanOut := ChOpen, writeDone := ChOpen, writer_pc := WrRecv,
                 watch_pc := WtSelect, serve_pc := DLoop\<rparr>)"

definition spawn :: "LDAPMessage \<Rightarrow> client \<Rightarrow> client" where
  "spawn m c =
     (wg_Add c)\<lparr>requests := (requests c)(next_hid c \<mapsto> HStarted (messageID m)),
                next_hid := Suc (next_hid c)\<rparr>"

definition dispatch :: "LDAPMessage \<Rightarrow> client \<Rightarrow> client" where
  "dispatch m c =
     (case protocolOp m of
        AbandonRequest t \<Rightarrow> cancelMessageID t c
      | ExtendedRequest name \<Rightarrow>
          if name = NoticeOfStartTLS
          then (spawn m c)\<lparr>serve_pc := DInline (next_hid c)\<rparr>
          else spawn m c
      | UnbindRequest \<Rightarrow> c\<lparr>serve_pc := DEmitClosing\<rparr>
      | _ \<Rightarrow> spawn m c)"

subsection \<open>The shutdown watcher\<close>

definition notice :: LDAPMessage where
  "notice = NewLDAPMessageWithProtocolOp
     (SetResponseName NoticeOfDisconnection
        (SetDiagnosticMessage ''server is about to stop''
           (NewExtendedResponse LDAPResultUnwillingToPerform)))"

definition watch_shutdown :: "client \<Rightarrow> client option" where
  "watch_shutdown c =
     (if watch_pc c = WtSelect \<and> srv_chDone c = ChClosed
      then Some ((wg_Add c)\<lparr>watch_pc := WtSend\<rparr>) else None)"

definition watch_send :: "client \<Rightarrow> client option" where
  "watch_send c =
     (if watch_pc c = WtSend
      then map_option (\<lambda>c1. if panicked c1 \<noteq> None then c1 else c1\<lparr>watch_pc := WtDone\<rparr>)
             (chanOut_send notice c)
      else None)"

definition watch_done :: "client \<Rightarrow> client option" where
  "watch_done c =
     (if watch_pc c = WtDone
      then Some (let c1 = wg_Done c
                 in if panicked c1 \<noteq> None then c1 else c1\<lparr>watch_pc := WtWake\<rparr>)
      else None)"

definition watch_wake :: "client \<Rightarrow> client option" where
  "watch_wake c =
     (if watch_pc c = WtWake
      then Some (c\<lparr>readDeadlines := Suc (readDeadlines c), watch_pc := WtExit\<rparr>)
      else None)"

definition watch_closing :: "client \<Rightarrow> client option" where
  "watch_closing c =
     (if watch_pc c = WtSelect \<and> closing c = ChClosed
      then Some (c\<lparr>watch_pc := WtExit\<rparr>) else None)"

subsection \<open>\<open>client.close\<close>\<close>

definition close_closing :: "client \<Rightarrow> client" where
  "close_closing c =
     (case chan_close (closing c) of
        Inl p \<Rightarrow> panics p c
      | Inr ch \<Rightarrow> c\<lparr>closing := ch, serve_pc := DReaderWake\<rparr>)"

definition close_deadline :: "client \<Rightarrow> client" where
  "close_deadline c = c\<lparr>readDeadlines := Suc (readDeadlines c), serve_pc := DCancelAll\<rparr>"

definition close_cancel :: "client \<Rightarrow> client" where
  "close_cancel c =
     c\<lparr>cancelled := cancelled c \<union> ran (registry c),
       requestCancel := map_option (\<lambda>r. Map.empty) (requestCancel c),
       serve_pc := DJoinWait\<rparr>"

definition close_wait :: "client \<Rightarrow> client option" where
  "close_wait c = (if wg c = 0 then Some (c\<lparr>serve_pc := DCloseQueue\<rparr>) else None)"

definition close_chanOut :: "client \<Rightarrow> client" where
  "close_chanOut c =
     (case chan_close (chanOut c) of
        Inl p \<Rightarrow> panics p c
      | Inr ch \<Rightarrow> c\<lparr>chanOut := ch, serve_pc := DWaitWriteDone\<rparr>)"

definition close_writeDone :: "client \<Rightarrow> client option" where
  "close_writeDone c =
     (if writeDone c = ChClosed then Some (c\<lparr>serve_pc := DCloseSocket\<rparr>) else None)"

definition close_rwc :: "client \<Rightarrow> client" where
  "close_rwc c = c\<lparr>rwc_closed := Suc (rwc_closed c), serve_pc := DReleaseServer\<rparr>"

definition close_release :: "client \<Rightarrow> client" where
  "close_release c =
     (if srv_wg c \<le> 0 then panics NegativeWaitGroupCounter c
      else c\<lparr>srv_wg := srv_wg c - 1, serve_pc := DExit\<rparr>)"

text \<open>\<open>Server.Shutdown\<close>, as far as one client sees it: the close of \<open>chDone\<close>.\<close>

definition Shutdown_signal :: "client \<Rightarrow> client" where
  "Shutdown_signal c =
     (case chan_close (srv_chDone c) of
        Inl p \<Rightarrow> panics p c
      | Inr ch \<Rightarrow> c\<lparr>srv_chDone := ch\<rparr>)"

section \<open>Interleavings\<close>

text \<open>One event is one atomic piece of one task. \<open>Serve b\<close> starts \<open>serve\<close> (with \<open>b\<close>
  saying whether a handler was obtained), \<open>Recv m\<close> is a message read and decoded by
  the dispatch loop, \<open>ReadError\<close> and \<open>DecodeError\<close> are the two failures of a read,
  and \<open>WriterWrite ok\<close> is the writer's write of the message it holds, with \<open>ok\<close>
  saying whether the write and the flush succeeded.\<close>

datatype event =
    Serve bool
  | Shutdown
  | ReadError
  | DecodeError
  | Recv LDAPMessage
  | HRegister hid
  | HWrite hid ProtocolOp
  | HReturn hid
  | HDeregister hid
  | HDone hid
  | WriterWrite bool
  | WriterExit
  | WatchShutdown
  | WatchSend
  | WatchDone
  | WatchWake
  | WatchClosing
  | EmitClosing
  | ReaderWake
  | CancelAll
  | JoinWait
  | CloseQueue
  | WaitWriteDone
  | CloseSocket
  | ReleaseServer

definition at_pc :: "serve_pc \<Rightarrow> client \<Rightarrow> client option \<Rightarrow> client option" where
  "at_pc p c r = (if serve_pc c = p then r else None)"

fun act :: "event \<Rightarrow> client \<Rightarrow> client option" where
  "act (Serve b) c = at_pc DInit c (Some (serve_begin b c))"
| "act Shutdown c = Some (Shutdown_signal c)"
| "act ReadError c = at_pc DLoop c (Some (c\<lparr>serve_pc := DEmitClosing\<rparr>))"
| "act DecodeError c = at_pc DLoop c (Some c)"
| "act (Recv m) c = at_pc DLoop c (Some (dispatch m c))"
| "act (HRegister h) c = process_register h c"
| "act (HWrite h po) c = process_write h po c"
| "act (HReturn h) c = process_return h c"
| "act (HDeregister h) c = process_deregister h c"
| "act (HDone h) c = process_done h c"
| "act (WriterWrite ok) c = writer_write ok c"
| "act WriterExit c = writer_exit c"
| "act WatchShutdown c = watch_shutdown c"
| "act WatchSend c = watch_send c"
| "act WatchDone c = watch_done c"
| "act WatchWake c = watch_wake c"
| "act WatchClosing c = watch_closing c"
| "act EmitClosing c = at_pc DEmitClosing c (Some (close_closing c))"
| "act ReaderWake c = at_pc DReaderWake c (Some (close_deadline c))"
| "act CancelAll c = at_pc DCancelAll c (Some (close_cancel c))"
| "act JoinWait c = at_pc DJoinWait c (close_wait c)"
| "act CloseQueue c = at_pc DCloseQueue c (Some (close_chanOut c))"
| "act WaitWriteDone c = at_pc DWaitWriteDone c (close_writeDone c)"
| "act CloseSocket c = at_pc DCloseSocket c (Some (close_rwc c))"
| "act ReleaseServer c = at_pc DReleaseServer c (Some (close_release c))"

text \<open>A panic that nothing recovers ends the process: no task moves after it.\<close>

definition step :: "event \<Rightarrow> client \<Rightarrow> client option" where
  "step e c = (if panicked c = None then act e c else None)"

fun run :: "event list \<Rightarrow> client \<Rightarrow> client option" where
  "run [] c = Some c"
| "run (e # es) c = (case step e c of None \<Rightarrow> None | Some c' \<Rightarrow> run es c')"

section \<open>Invariants and observations\<close>


definition live_of :: "(hid \<rightharpoonup> request_pc) \<Rightarrow> hid set" where
  "live_of r = {h. \<exists>p. r h = Some p \<and> p \<noteq> HFinished}"

fun wbit :: "watch_pc \<Rightarrow> int" where
  "wbit WtSend = 1"
| "wbit WtDone = 1"
| "wbit _ = 0"

fun past_join :: "serve_pc \<Rightarrow> bool" where
  "past_join DCloseQueue = True"
| "past_join DWaitWriteDone = True"
| "past_join DCloseSocket = True"
| "past_join DReleaseServer = True"
| "past_join DExit = True"
| "past_join _ = False"

definition inv_req :: "client \<Rightarrow> bool" where
  "inv_req c = ((\<forall>h. requests c h \<noteq> None \<longrightarrow> h < next_hid c) \<and>
     wg c = int (card (live_of (requests c))) + wbit (watch_pc c) \<and>
     (past_join (serve_pc c) \<longrightarrow> live_of (requests c) = {}) \<and>
     (\<forall>h. serve_pc c = DInline h \<longrightarrow> h \<in> live_of (requests c)) \<and>
     (serve_pc c = DInit \<longrightarrow> watch_pc c = WtIdle))"

fun queue_closed_pc :: "serve_pc \<Rightarrow> bool" where
  "queue_closed_pc DWaitWriteDone = True"
| "queue_closed_pc DCloseSocket = True"
| "queue_closed_pc DReleaseServer = True"
| "queue_closed_pc DExit = True"
| "queue_closed_pc _ = False"

fun socket_pc :: "serve_pc \<Rightarrow> bool" where
  "socket_pc DCloseSocket = True"
| "socket_pc DReleaseServer = True"
| "socket_pc DExit = True"
| "socket_pc _ = False"

fun rwc_closed_at :: "serve_pc \<Rightarrow> nat" where
  "rwc_closed_at DReleaseServer = 1"
| "rwc_closed_at DExit = 1"
| "rwc_closed_at _ = 0"

definition inv_chan :: "client \<Rightarrow> bool" where
  "inv_chan c =
    ((chanOut c = ChClosed \<longleftrightarrow> queue_closed_pc (serve_pc c)) \<and>
     (chanOut c = ChNil \<longleftrightarrow> writer_pc c = WrIdle) \<and>
     (writeDone c = ChClosed \<longleftrightarrow> writer_pc c = WrExit) \<and>
     (writer_pc c = WrExit \<longrightarrow> chanOut c = ChClosed) \<and>
     (socket_pc (serve_pc c) \<longrightarrow> writer_pc c = WrExit) \<and>
     rwc_closed c = rwc_closed_at (serve_pc c))"



definition close_order :: "event list" where
  "close_order = [EmitClosing, ReaderWake, CancelAll, JoinWait, CloseQueue, WaitWriteDone,
     CloseSocket, ReleaseServer]"

fun is_close :: "event \<Rightarrow> bool" where
  "is_close EmitClosing = True"
| "is_close ReaderWake = True"
| "is_close CancelAll = True"
| "is_close JoinWait = True"
| "is_close CloseQueue = True"
| "is_close WaitWriteDone = True"
| "is_close CloseSocket = True"
| "is_close ReleaseServer = True"
| "is_close _ = False"

fun close_stage :: "serve_pc \<Rightarrow> nat" where
  "close_stage DReaderWake = 1"
| "close_stage DCancelAll = 2"
| "close_stage DJoinWait = 3"
| "close_stage DCloseQueue = 4"
| "close_stage DWaitWriteDone = 5"
| "close_stage DCloseSocket = 6"
| "close_stage DReleaseServer = 7"
| "close_stage DExit = 8"
| "close_stage _ = 0"

fun is_request_event :: "event \<Rightarrow> bool" where
  "is_request_event (HRegister h) = True"
| "is_request_event (HWrite h po) = True"
| "is_request_event (HReturn h) = True"
| "is_request_event (HDeregister h) = True"
| "is_request_event (HDone h) = True"
| "is_request_event _ = False"

definition observe :: "(client \<Rightarrow> 'a) \<Rightarrow> event list \<Rightarrow> 'a option" where
  "observe f evs = map_option f (run evs new_client)"

fun is_read :: "event \<Rightarrow> bool" where
  "is_read ReadError = True"
| "is_read DecodeError = True"
| "is_read (Recv m) = True"
| "is_read _ = False"

fun in_close :: "serve_pc \<Rightarrow> bool" where
  "in_close DInit = False"
| "in_close DLoop = False"
| "in_close (DInline h) = False"
| "in_close _ = True"

definition registered :: "client \<Rightarrow> int set" where
  "registered c = dom (registry c)"


definition lifecycle :: "hid \<Rightarrow> event list" where
  "lifecycle h = [HRegister h, HReturn h, HDeregister h, HDone h]"

fun is_lifecycle :: "hid \<Rightarrow> event \<Rightarrow> bool" where
  "is_lifecycle h (HRegister k) = (k = h)"
| "is_lifecycle h (HReturn k) = (k = h)"
| "is_lifecycle h (HDeregister k) = (k = h)"
| "is_lifecycle h (HDone k) = (k = h)"
| "is_lifecycle h _ = False"

fun request_stage :: "request_pc option \<Rightarrow> nat" where
  "request_stage (Some (HServing mid)) = 1"
| "request_stage (Some (HReturned mid)) = 2"
| "request_stage (Some (HDeregistered mid)) = 3"
| "request_stage (Some HFinished) = 4"
| "request_stage _ = 0"


section \<open>Example runs\<close>

definition abandon_example :: client where
  "abandon_example = (serve_begin True new_client)\<lparr>wg := 1,
     requestCancel := Some [7 \<mapsto> 0], requests := [0 \<mapsto> HServing 7], next_hid := 1\<rparr>"



definition unbind_late_write_example :: "event list" where
  "unbind_late_write_example =
    [Serve True,
     Recv \<lparr>messageID = 5, protocolOp = SearchRequest ''dc=example''\<rparr>,
     HRegister 0,
     Recv \<lparr>messageID = 6, protocolOp = UnbindRequest\<rparr>,
     HWrite 0 (SearchResultEntry ''cn=a''), WriterWrite True]"

definition nil_handler_example :: "event list" where
  "nil_handler_example = [Serve False, EmitClosing, ReaderWake, CancelAll, JoinWait, CloseQueue]"

definition closed_queue_example :: "event list" where
  "closed_queue_example =
    [Serve True, ReadError, EmitClosing, ReaderWake, CancelAll, JoinWait, CloseQueue]"

definition starttls_example :: client where
  "starttls_example = serve_begin True new_client"

definition close_race_example :: "event list" where
  "close_race_example =
    [Serve True,
     Recv \<lparr>messageID = 5, protocolOp = SearchRequest ''dc=example''\<rparr>,
     HRegister 0, ReadError, EmitClosing, ReaderWake, CancelAll, HReturn 0, HDeregister 0,
     HDone 0, JoinWait, Shutdown, CloseQueue, WatchShutdown, WatchSend]"

definition unbind_close_example :: "event list" where
  "unbind_close_example =
    [EmitClosing, ReaderWake, CancelAll, HWrite 0 (SearchResultDone 0), WriterWrite True,
     HReturn 0, HDeregister 0, HDone 0, WatchClosing, JoinWait, CloseQueue, WriterExit,
     WaitWriteDone, CloseSocket]"

definition starttls_run_example :: "event list" where
  "starttls_run_example =
    [HRegister 0, HWrite 0 (ExtendedResponse 0 [] []), WriterWrite True, HReturn 0,
     HDeregister 0, HDone 0,
     Recv \<lparr>messageID = 2, protocolOp = BindRequest ''u'' ''p''\<rparr>]"


definition reuse_example :: client where
  "reuse_example = (serve_begin True new_client)\<lparr>wg := 2,
     requests := [0 \<mapsto> HStarted 7, 1 \<mapsto> HStarted 7], next_hid := 2\<rparr>"

section \<open>Facts about single operations\<close>

lemmas act_defs = at_pc_def serve_begin_def dispatch_def spawn_def cancelMessageID_def
  process_register_def process_write_def process_return_def process_deregister_def
  process_done_def writer_write_def writer_exit_def writeMessage_def Write_def wrap_def
  chanOut_send_def watch_shutdown_def watch_send_def watch_done_def watch_wake_def
  watch_closing_def close_closing_def close_deadline_def close_cancel_def close_wait_def
  close_chanOut_def close_writeDone_def close_rwc_def close_release_def
  Shutdown_signal_def wg_Add_def wg_Done_def panics_def

lemma cancelMessageID_hit:
  "registry c t = Some h \<Longrightarrow>
     cancelled (cancelMessageID t c) = insert h (cancelled c) \<and>
     registry (cancelMessageID t c) = (registry c)(t := None)"
  by (auto simp: cancelMessageID_def registry_def split: option.splits)

lemma cancelMessageID_miss: "registry c t = None \<Longrightarrow> cancelMessageID t c = c"
  by (simp add: cancelMessageID_def)

lemmas run_defs = step_def at_pc_def serve_begin_def dispatch_def spawn_def cancelMessageID_def
  process_register_def process_write_def process_return_def process_deregister_def
  process_done_def writer_write_def writer_exit_def writeMessage_def Write_def wrap_def
  chanOut_send_def watch_shutdown_def watch_send_def watch_done_def watch_wake_def
  watch_closing_def close_closing_def close_deadline_def close_cancel_def close_wait_def
  close_chanOut_def close_writeDone_def close_rwc_def close_release_def
  Shutdown_signal_def wg_Add_def wg_Done_def panics_def registry_def new_client_def Let_def

section \<open>Case analysis of one step\<close>


lemma chan_close_Inr [simp]: "chan_close x = Inr y \<longleftrightarrow> x = ChOpen \<and> y = ChClosed"
  by (cases x) auto

lemma chan_close_Inl [simp]: "chan_close x = Inl p \<longleftrightarrow>
   (x = ChNil \<and> p = CloseOfNilChannel) \<or> (x = ChClosed \<and> p = CloseOfClosedChannel)"
  by (cases x) auto

lemma at_pc_Some [simp]: "at_pc p c r = Some c' \<longleftrightarrow> serve_pc c = p \<and> r = Some c'"
  by (simp add: at_pc_def)

lemma dispatch_other:
  "protocolOp m \<noteq> UnbindRequest \<Longrightarrow> \<forall>t. protocolOp m \<noteq> AbandonRequest t \<Longrightarrow>
   protocolOp m \<noteq> ExtendedRequest NoticeOfStartTLS \<Longrightarrow> dispatch m c = spawn m c"
  by (cases "protocolOp m") (simp_all add: dispatch_def)

lemma step_cases [consumes 1, case_names Serve_none Serve_handler Shutdown ReadError DecodeError
    Abandon_hit Abandon_miss Unbind StartTLS Spawn HRegister HWrite HReturn HDeregister HDone
    WriterWrite WriterExit WatchShutdown WatchSend WatchDone WatchWake WatchClosing
    EmitClosing ReaderWake CancelAll JoinWait CloseQueue WaitWriteDone CloseSocket
    ReleaseServer HDone_panic Shutdown_panic HWrite_panic
    WriterExit_panic WatchSend_panic WatchDone_panic EmitClosing_panic CloseQueue_panic
    ReleaseServer_panic]:
  assumes "step e c = Some c'"
  obtains
    (Serve_none) "e = Serve False" "panicked c = None" "serve_pc c = DInit"
      "c' = c\<lparr>closing := ChOpen, serve_pc := DEmitClosing\<rparr>"
  | (Serve_handler) "e = Serve True" "panicked c = None" "serve_pc c = DInit"
      "c' = c\<lparr>closing := ChOpen, chanOut := ChOpen, writeDone := ChOpen,
              writer_pc := WrRecv, watch_pc := WtSelect, serve_pc := DLoop\<rparr>"
  | (Shutdown) "e = Shutdown" "panicked c = None" "srv_chDone c = ChOpen"
      "c' = c\<lparr>srv_chDone := ChClosed\<rparr>"
  | (ReadError) "e = ReadError" "panicked c = None" "serve_pc c = DLoop"
      "c' = c\<lparr>serve_pc := DEmitClosing\<rparr>"
  | (DecodeError) "e = DecodeError" "panicked c = None" "serve_pc c = DLoop" "c' = c"
  | (Abandon_hit) m t h where "e = Recv m" "panicked c = None" "serve_pc c = DLoop"
      "protocolOp m = AbandonRequest t" "registry c t = Some h"
      "c' = c\<lparr>cancelled := insert h (cancelled c),
              requestCancel := map_option (\<lambda>r. r(t := None)) (requestCancel c)\<rparr>"
  | (Abandon_miss) m t where "e = Recv m" "panicked c = None" "serve_pc c = DLoop"
      "protocolOp m = AbandonRequest t" "registry c t = None" "c' = c"
  | (Unbind) m where "e = Recv m" "panicked c = None" "serve_pc c = DLoop"
      "protocolOp m = UnbindRequest" "c' = c\<lparr>serve_pc := DEmitClosing\<rparr>"
  | (StartTLS) m where "e = Recv m" "panicked c = None" "serve_pc c = DLoop"
      "protocolOp m = ExtendedRequest NoticeOfStartTLS"
      "c' = c\<lparr>wg := wg c + 1,
              requests := (requests c)(next_hid c \<mapsto> HStarted (messageID m)),
              next_hid := Suc (next_hid c), serve_pc := DInline (next_hid c)\<rparr>"
  | (Spawn) m where "e = Recv m" "panicked c = None" "serve_pc c = DLoop"
      "protocolOp m \<noteq> UnbindRequest" "\<forall>t. protocolOp m \<noteq> AbandonRequest t"
      "protocolOp m \<noteq> ExtendedRequest NoticeOfStartTLS"
      "c' = c\<lparr>wg := wg c + 1,
              requests := (requests c)(next_hid c \<mapsto> HStarted (messageID m)),
              next_hid := Suc (next_hid c)\<rparr>"
  | (HRegister) h mid where "e = HRegister h" "panicked c = None"
      "requests c h = Some (HStarted mid)"
      "c' = c\<lparr>requestCancel := Some ((registry c)(mid \<mapsto> h)),
              requests := (requests c)(h \<mapsto> HServing mid)\<rparr>"
  | (HWrite) h po mid where "e = HWrite h po" "panicked c = None"
      "requests c h = Some (HServing mid)" "chanOut c = ChOpen" "writer_pc c = WrRecv"
      "c' = c\<lparr>writer_pc := WrWrite (wrap \<lparr>w_messageID = mid\<rparr> po)\<rparr>"
  | (HReturn) h mid where "e = HReturn h" "panicked c = None"
      "requests c h = Some (HServing mid)"
      "c' = c\<lparr>requests := (requests c)(h \<mapsto> HReturned mid)\<rparr>"
  | (HDeregister) h mid where "e = HDeregister h" "panicked c = None"
      "requests c h = Some (HReturned mid)"
      "c' = c\<lparr>requestCancel := map_option (\<lambda>r. r(mid := None)) (requestCancel c),
              requests := (requests c)(h \<mapsto> HDeregistered mid)\<rparr>"
  | (HDone) h mid where "e = HDone h" "panicked c = None"
      "requests c h = Some (HDeregistered mid)" "0 < wg c"
      "c' = c\<lparr>cancelled := insert h (cancelled c), wg := wg c - 1,
              requests := (requests c)(h \<mapsto> HFinished),
              serve_pc := (if serve_pc c = DInline h then DLoop else serve_pc c)\<rparr>"
  | (WriterWrite) ok m where "e = WriterWrite ok" "panicked c = None" "writer_pc c = WrWrite m"
      "c' = c\<lparr>logged := logged c @ [m],
              wire := (if ok \<and> rwc_closed c = 0 then wire c @ [m] else wire c),
              writer_pc := WrRecv\<rparr>"
  | (WriterExit) "e = WriterExit" "panicked c = None" "writer_pc c = WrRecv"
      "chanOut c = ChClosed" "writeDone c = ChOpen"
      "c' = c\<lparr>writeDone := ChClosed, writer_pc := WrExit\<rparr>"
  | (WatchShutdown) "e = WatchShutdown" "panicked c = None" "watch_pc c = WtSelect"
      "srv_chDone c = ChClosed" "c' = c\<lparr>wg := wg c + 1, watch_pc := WtSend\<rparr>"
  | (WatchSend) "e = WatchSend" "panicked c = None" "watch_pc c = WtSend"
      "chanOut c = ChOpen" "writer_pc c = WrRecv"
      "c' = c\<lparr>writer_pc := WrWrite notice, watch_pc := WtDone\<rparr>"
  | (WatchDone) "e = WatchDone" "panicked c = None" "watch_pc c = WtDone" "0 < wg c"
      "c' = c\<lparr>wg := wg c - 1, watch_pc := WtWake\<rparr>"
  | (WatchWake) "e = WatchWake" "panicked c = None" "watch_pc c = WtWake"
      "c' = c\<lparr>readDeadlines := Suc (readDeadlines c), watch_pc := WtExit\<rparr>"
  | (WatchClosing) "e = WatchClosing" "panicked c = None" "watch_pc c = WtSelect"
      "closing c = ChClosed" "c' = c\<lparr>watch_pc := WtExit\<rparr>"
  | (EmitClosing) "e = EmitClosing" "panicked c = None" "serve_pc c = DEmitClosing"
      "closing c = ChOpen" "c' = c\<lparr>closing := ChClosed, serve_pc := DReaderWake\<rparr>"
  | (ReaderWake) "e = ReaderWake" "panicked c = None" "serve_pc c = DReaderWake"
      "c' = c\<lparr>readDeadlines := Suc (readDeadlines c), serve_pc := DCancelAll\<rparr>"
  | (CancelAll) "e = CancelAll" "panicked c = None" "serve_pc c = DCancelAll"
      "c' = c\<lparr>cancelled := cancelled c \<union> ran (registry c),
              requestCancel := map_option (\<lambda>r. Map.empty) (requestCancel c),
              serve_pc := DJoinWait\<rparr>"
  | (JoinWait) "e = JoinWait" "panicked c = None" "serve_pc c = DJoinWait" "wg c = 0"
      "c' = c\<lparr>serve_pc := DCloseQueue\<rparr>"
  | (CloseQueue) "e = CloseQueue" "panicked c = None" "serve_pc c = DCloseQueue"
      "chanOut c = ChOpen" "c' = c\<lparr>chanOut := ChClosed, serve_pc := DWaitWriteDone\<rparr>"
  | (WaitWriteDone) "e = WaitWriteDone" "panicked c = None" "serve_pc c = DWaitWriteDone"
      "writeDone c = ChClosed" "c' = c\<lparr>serve_pc := DCloseSocket\<rparr>"
  | (CloseSocket) "e = CloseSocket" "panicked c = None" "serve_pc c = DCloseSocket"
      "c' = c\<lparr>rwc_closed := Suc (rwc_closed c), serve_pc := DReleaseServer\<rparr>"
  | (ReleaseServer) "e = ReleaseServer" "panicked c = None" "serve_pc c = DReleaseServer"
      "0 < srv_wg c" "c' = c\<lparr>srv_wg := srv_wg c - 1, serve_pc := DExit\<rparr>"
  | (HDone_panic) h mid where "e = HDone h" "panicked c = None"
      "requests c h = Some (HDeregistered mid)" "wg c \<le> 0"
      "c' = c\<lparr>cancelled := insert h (cancelled c),
              panicked := Some NegativeWaitGroupCounter\<rparr>"
  | (Shutdown_panic) p where "e = Shutdown" "panicked c = None" "srv_chDone c \<noteq> ChOpen"
      "c' = c\<lparr>panicked := Some p\<rparr>"
  | (HWrite_panic) h po mid where "e = HWrite h po" "panicked c = None"
      "requests c h = Some (HServing mid)" "chanOut c = ChClosed"
      "c' = c\<lparr>panicked := Some SendOnClosedChannel\<rparr>"
  | (WriterExit_panic) p where "e = WriterExit" "panicked c = None" "writer_pc c = WrRecv"
      "chanOut c = ChClosed" "writeDone c \<noteq> ChOpen" "c' = c\<lparr>panicked := Some p\<rparr>"
  | (WatchSend_panic) "e = WatchSend" "panicked c = None" "watch_pc c = WtSend"
      "chanOut c = ChClosed" "c' = c\<lparr>panicked := Some SendOnClosedChannel\<rparr>"
  | (WatchDone_panic) "e = WatchDone" "panicked c = None" "watch_pc c = WtDone" "wg c \<le> 0"
      "c' = c\<lparr>panicked := Some NegativeWaitGroupCounter\<rparr>"
  | (EmitClosing_panic) p where "e = EmitClosing" "panicked c = None"
      "serve_pc c = DEmitClosing" "closing c \<noteq> ChOpen" "c' = c\<lparr>panicked := Some p\<rparr>"
  | (CloseQueue_panic) p where "e = CloseQueue" "panicked c = None"
      "serve_pc c = DCloseQueue" "chanOut c \<noteq> ChOpen" "c' = c\<lparr>panicked := Some p\<rparr>"
  | (ReleaseServer_panic) "e = ReleaseServer" "panicked c = None"
      "serve_pc c = DReleaseServer" "srv_wg c \<le> 0"
      "c' = c\<lparr>panicked := Some NegativeWaitGroupCounter\<rparr>"
proof -
  from assms have np: "panicked c = None" and a: "act e c = Some c'"
    by (simp_all add: step_def split: if_splits)
  show ?thesis
  proof (cases e)
    case (Serve b)
    show ?thesis
    proof (cases b)
      case True
      show ?thesis
        by (rule Serve_handler) (use a np Serve True in \<open>auto simp: serve_begin_def Let_def\<close>)
    next
      case False
      show ?thesis
        by (rule Serve_none) (use a np Serve False in \<open>auto simp: serve_begin_def Let_def\<close>)
    qed
  next
    case Shutdown
    show ?thesis
    proof (cases "srv_chDone c")
      case ChOpen
      show ?thesis
        by (rule that(3)) (use a np Shutdown ChOpen in \<open>auto simp: Shutdown_signal_def\<close>)
    next
      case ChNil
      show ?thesis
        by (rule Shutdown_panic[of CloseOfNilChannel]) (use a np Shutdown ChNil in \<open>auto simp: Shutdown_signal_def panics_def\<close>)
    next
      case ChClosed
      show ?thesis
        by (rule Shutdown_panic[of CloseOfClosedChannel]) (use a np Shutdown ChClosed in \<open>auto simp: Shutdown_signal_def panics_def\<close>)
    qed
  next
    case ReadError
    show ?thesis by (rule that(4)) (use a np ReadError in auto)
  next
    case DecodeError
    show ?thesis by (rule that(5)) (use a np DecodeError in auto)
  next
    case (Recv m)
    consider (ab) t where "protocolOp m = AbandonRequest t"
      | (ub) "protocolOp m = UnbindRequest"
      | (tls) "protocolOp m = ExtendedRequest NoticeOfStartTLS"
      | (other) "protocolOp m \<noteq> UnbindRequest" "\<forall>t. protocolOp m \<noteq> AbandonRequest t"
          "protocolOp m \<noteq> ExtendedRequest NoticeOfStartTLS"
      by (cases "protocolOp m") auto
    then show ?thesis
    proof cases
      case ab
      show ?thesis
      proof (cases "registry c t")
        case None
        show ?thesis
          by (rule Abandon_miss[of m t])
             (use a np Recv ab None in \<open>auto simp: dispatch_def cancelMessageID_def\<close>)
      next
        case (Some h)
        show ?thesis
          by (rule Abandon_hit[of m t h])
             (use a np Recv ab Some in \<open>auto simp: dispatch_def cancelMessageID_def\<close>)
      qed
    next
      case ub
      show ?thesis
        by (rule Unbind[of m]) (use a np Recv ub in \<open>auto simp: dispatch_def\<close>)
    next
      case tls
      show ?thesis
        by (rule StartTLS[of m])
           (use a np Recv tls in \<open>auto simp: dispatch_def spawn_def wg_Add_def\<close>)
    next
      case other
      show ?thesis
        by (rule Spawn[of m])
           (use a np Recv other dispatch_other[OF other, of c] in
             \<open>auto simp: spawn_def wg_Add_def\<close>)
    qed
  next
    case (HRegister h)
    with a obtain mid where m: "requests c h = Some (HStarted mid)"
      by (auto simp: process_register_def split: option.splits request_pc.splits)
    show ?thesis
      by (rule that(11)[of h mid]) (use a np HRegister m in \<open>auto simp: process_register_def\<close>)
  next
    case (HWrite h po)
    with a obtain mid where m: "requests c h = Some (HServing mid)"
      by (auto simp: process_write_def split: option.splits request_pc.splits)
    show ?thesis
    proof (cases "chanOut c")
      case ChNil
      with a HWrite m show ?thesis
        by (simp add: process_write_def Write_def chanOut_send_def)
    next
      case ChOpen
      with a HWrite m have w: "writer_pc c = WrRecv"
        by (simp add: process_write_def Write_def chanOut_send_def split: if_splits)
      show ?thesis
        by (rule that(12)[of h po mid])
           (use a np HWrite m ChOpen w in
             \<open>auto simp: process_write_def Write_def chanOut_send_def\<close>)
    next
      case ChClosed
      show ?thesis
        by (rule HWrite_panic[of h po mid])
           (use a np HWrite m ChClosed in
             \<open>auto simp: process_write_def Write_def chanOut_send_def panics_def\<close>)
    qed
  next
    case (HReturn h)
    with a obtain mid where m: "requests c h = Some (HServing mid)"
      by (auto simp: process_return_def split: option.splits request_pc.splits)
    show ?thesis
      by (rule that(13)[of h mid]) (use a np HReturn m in \<open>auto simp: process_return_def\<close>)
  next
    case (HDeregister h)
    with a obtain mid where m: "requests c h = Some (HReturned mid)"
      by (auto simp: process_deregister_def split: option.splits request_pc.splits)
    show ?thesis
      by (rule that(14)[of h mid])
         (use a np HDeregister m in \<open>auto simp: process_deregister_def\<close>)
  next
    case (HDone h)
    with a obtain mid where m: "requests c h = Some (HDeregistered mid)"
      by (auto simp: process_done_def split: option.splits request_pc.splits)
    show ?thesis
    proof (cases "wg c \<le> 0")
      case True
      show ?thesis
        by (rule HDone_panic[of h mid])
           (use a np HDone m True in
             \<open>auto simp: process_done_def wg_Done_def panics_def Let_def\<close>)
    next
      case False
      show ?thesis
        by (rule that(15)[of h mid])
           (use a np HDone m False in
             \<open>auto simp: process_done_def wg_Done_def panics_def Let_def\<close>)
    qed
  next
    case (WriterWrite ok)
    with a obtain m where m: "writer_pc c = WrWrite m"
      by (auto simp: writer_write_def split: writer_pc.splits)
    show ?thesis
      by (rule that(16)[of ok m])
         (use a np WriterWrite m in \<open>auto simp: writer_write_def writeMessage_def\<close>)
  next
    case WriterExit
    with a have g: "writer_pc c = WrRecv" "chanOut c = ChClosed"
      by (simp_all add: writer_exit_def split: if_splits)
    show ?thesis
    proof (cases "writeDone c")
      case ChOpen
      show ?thesis
        by (rule that(17)) (use a np WriterExit g ChOpen in \<open>auto simp: writer_exit_def\<close>)
    next
      case ChNil
      show ?thesis
        by (rule WriterExit_panic[of CloseOfNilChannel])
           (use a np WriterExit g ChNil in \<open>auto simp: writer_exit_def panics_def\<close>)
    next
      case ChClosed
      show ?thesis
        by (rule WriterExit_panic[of CloseOfClosedChannel])
           (use a np WriterExit g ChClosed in \<open>auto simp: writer_exit_def panics_def\<close>)
    qed
  next
    case WatchShutdown
    with a have g: "watch_pc c = WtSelect" "srv_chDone c = ChClosed"
      by (simp_all add: watch_shutdown_def split: if_splits)
    show ?thesis
      by (rule that(18))
         (use a np WatchShutdown g in \<open>auto simp: watch_shutdown_def wg_Add_def\<close>)
  next
    case WatchSend
    with a have g: "watch_pc c = WtSend"
      by (simp_all add: watch_send_def split: if_splits)
    show ?thesis
    proof (cases "chanOut c")
      case ChNil
      with a WatchSend g show ?thesis
        by (simp add: watch_send_def chanOut_send_def)
    next
      case ChOpen
      with a WatchSend g have w: "writer_pc c = WrRecv"
        by (simp add: watch_send_def chanOut_send_def split: if_splits)
      show ?thesis
        by (rule that(19))
           (use a np WatchSend g ChOpen w in \<open>auto simp: watch_send_def chanOut_send_def\<close>)
    next
      case ChClosed
      show ?thesis
        by (rule WatchSend_panic)
           (use a np WatchSend g ChClosed in
             \<open>auto simp: watch_send_def chanOut_send_def panics_def\<close>)
    qed
  next
    case WatchDone
    with a have g: "watch_pc c = WtDone"
      by (simp_all add: watch_done_def split: if_splits)
    show ?thesis
    proof (cases "wg c \<le> 0")
      case True
      show ?thesis
        by (rule WatchDone_panic)
           (use a np WatchDone g True in
             \<open>auto simp: watch_done_def wg_Done_def panics_def Let_def\<close>)
    next
      case False
      show ?thesis
        by (rule that(20))
           (use a np WatchDone g False in
             \<open>auto simp: watch_done_def wg_Done_def panics_def Let_def\<close>)
    qed
  next
    case WatchWake
    with a have g: "watch_pc c = WtWake"
      by (simp_all add: watch_wake_def split: if_splits)
    show ?thesis
      by (rule that(21)) (use a np WatchWake g in \<open>auto simp: watch_wake_def\<close>)
  next
    case WatchClosing
    with a have g: "watch_pc c = WtSelect" "closing c = ChClosed"
      by (simp_all add: watch_closing_def split: if_splits)
    show ?thesis
      by (rule that(22)) (use a np WatchClosing g in \<open>auto simp: watch_closing_def\<close>)
  next
    case EmitClosing
    show ?thesis
    proof (cases "closing c")
      case ChOpen
      show ?thesis
        by (rule that(23)) (use a np EmitClosing ChOpen in \<open>auto simp: close_closing_def\<close>)
    next
      case ChNil
      show ?thesis
        by (rule EmitClosing_panic[of CloseOfNilChannel])
           (use a np EmitClosing ChNil in \<open>auto simp: close_closing_def panics_def\<close>)
    next
      case ChClosed
      show ?thesis
        by (rule EmitClosing_panic[of CloseOfClosedChannel])
           (use a np EmitClosing ChClosed in \<open>auto simp: close_closing_def panics_def\<close>)
    qed
  next
    case ReaderWake
    show ?thesis
      by (rule that(24)) (use a np ReaderWake in \<open>auto simp: close_deadline_def\<close>)
  next
    case CancelAll
    show ?thesis
      by (rule that(25)) (use a np CancelAll in \<open>auto simp: close_cancel_def\<close>)
  next
    case JoinWait
    with a have g: "wg c = 0"
      by (simp_all add: close_wait_def split: if_splits)
    show ?thesis
      by (rule that(26)) (use a np JoinWait g in \<open>auto simp: close_wait_def\<close>)
  next
    case CloseQueue
    show ?thesis
    proof (cases "chanOut c")
      case ChOpen
      show ?thesis
        by (rule that(27)) (use a np CloseQueue ChOpen in \<open>auto simp: close_chanOut_def\<close>)
    next
      case ChNil
      show ?thesis
        by (rule CloseQueue_panic[of CloseOfNilChannel])
           (use a np CloseQueue ChNil in \<open>auto simp: close_chanOut_def panics_def\<close>)
    next
      case ChClosed
      show ?thesis
        by (rule CloseQueue_panic[of CloseOfClosedChannel])
           (use a np CloseQueue ChClosed in \<open>auto simp: close_chanOut_def panics_def\<close>)
    qed
  next
    case WaitWriteDone
    with a have g: "writeDone c = ChClosed"
      by (simp_all add: close_writeDone_def split: if_splits)
    show ?thesis
      by (rule that(28)) (use a np WaitWriteDone g in \<open>auto simp: close_writeDone_def\<close>)
  next
    case CloseSocket
    show ?thesis
      by (rule that(29)) (use a np CloseSocket in \<open>auto simp: close_rwc_def\<close>)
  next
    case ReleaseServer
    show ?thesis
    proof (cases "srv_wg c \<le> 0")
      case True
      show ?thesis
        by (rule ReleaseServer_panic)
           (use a np ReleaseServer True in \<open>auto simp: close_release_def panics_def\<close>)
    next
      case False
      show ?thesis
        by (rule that(30))
           (use a np ReleaseServer False in \<open>auto simp: close_release_def panics_def\<close>)
    qed
  qed
qed


section \<open>Invariants of every run\<close>

lemma live_of_upd_same:
  "r h = Some p \<Longrightarrow> p \<noteq> HFinished \<Longrightarrow> q \<noteq> HFinished \<Longrightarrow> live_of (r(h \<mapsto> q)) = live_of r"
  by (auto simp: live_of_def)

lemma live_of_upd_new:
  "r h = None \<Longrightarrow> q \<noteq> HFinished \<Longrightarrow> live_of (r(h \<mapsto> q)) = insert h (live_of r) \<and> h \<notin> live_of r"
  by (auto simp: live_of_def)

lemma live_of_upd_fin: "live_of (r(h \<mapsto> HFinished)) = live_of r - {h}"
  by (auto simp: live_of_def)

lemma live_ofI: "r h = Some p \<Longrightarrow> p \<noteq> HFinished \<Longrightarrow> h \<in> live_of r"
  by (auto simp: live_of_def)

lemma finite_live_of: "\<forall>h. r h \<noteq> None \<longrightarrow> h < n \<Longrightarrow> finite (live_of r)"
proof -
  assume a: "\<forall>h. r h \<noteq> None \<longrightarrow> h < n"
  have "live_of r \<subseteq> {..<n}" using a by (auto simp: live_of_def)
  then show ?thesis by (rule finite_subset) simp
qed

lemma card_live_remove:
  assumes "finite S" "h \<in> S" shows "int (card (S - {h})) = int (card S) - 1"
proof -
  from assms have "card S = Suc (card (S - {h}))" by (rule card.remove)
  then show ?thesis by simp
qed

lemma inv_req_new: "inv_req new_client"
  by (simp add: inv_req_def new_client_def live_of_def)

lemma inv_req_step:
  assumes "inv_req c" "step e c = Some c'"
  shows "inv_req c'"
proof -
  have fin: "finite (live_of (requests c))"
    using assms(1) by (auto simp: inv_req_def intro: finite_live_of)
  have fresh: "requests c (next_hid c) = None"
    using assms(1) by (auto simp: inv_req_def)
  have nopast: "\<And>h p. requests c h = Some p \<Longrightarrow> p \<noteq> HFinished \<Longrightarrow> \<not> past_join (serve_pc c)"
    using assms(1) by (auto simp: inv_req_def dest: live_ofI)
  from assms(2) show ?thesis
  proof (cases rule: step_cases)
    case (StartTLS m)
    then show ?thesis using assms(1) fin fresh live_of_upd_new[of "requests c" "next_hid c" "HStarted (messageID m)"]
      by (auto simp: inv_req_def)
  next
    case (Spawn m)
    then show ?thesis using assms(1) fin fresh live_of_upd_new[of "requests c" "next_hid c" "HStarted (messageID m)"]
      by (auto simp: inv_req_def)
  next
    case (HRegister h mid)
    then show ?thesis using assms(1) nopast[of h "HStarted mid"] live_of_upd_same[of "requests c" h "HStarted mid" "HServing mid"]
      by (auto simp: inv_req_def)
  next
    case (HReturn h mid)
    then show ?thesis using assms(1) nopast[of h "HServing mid"] live_of_upd_same[of "requests c" h "HServing mid" "HReturned mid"]
      by (auto simp: inv_req_def)
  next
    case (HDeregister h mid)
    then show ?thesis using assms(1) nopast[of h "HReturned mid"] live_of_upd_same[of "requests c" h "HReturned mid" "HDeregistered mid"]
      by (auto simp: inv_req_def)
  next
    case (HDone h mid)
    have "h \<in> live_of (requests c)" using HDone by (auto intro: live_ofI)
    then show ?thesis using HDone assms(1) fin nopast[of h "HDeregistered mid"] card_live_remove[of "live_of (requests c)" h]
      by (auto simp: inv_req_def live_of_upd_fin)
  next
    case JoinWait
    have "0 \<le> wbit (watch_pc c)" by (cases "watch_pc c") auto
    then have "card (live_of (requests c)) = 0" using JoinWait assms(1) by (auto simp: inv_req_def)
    then show ?thesis using JoinWait assms(1) fin by (auto simp: inv_req_def)
  qed (use assms(1) in \<open>auto simp: inv_req_def\<close>)
qed


lemma inv_chan_new: "inv_chan new_client"
  by (simp add: inv_chan_def new_client_def)

lemma inv_chan_step:
  assumes "inv_chan c" "step e c = Some c'"
  shows "inv_chan c'"
  using assms(2)
  by (cases rule: step_cases) (use assms(1) in \<open>auto simp: inv_chan_def\<close>)

lemma run_append: "run (xs @ ys) c = Option.bind (run xs c) (run ys)"
  by (induction xs arbitrary: c) (auto split: option.splits)

lemma run_snoc: "run (xs @ [e]) c = Some c' \<longleftrightarrow> (\<exists>c1. run xs c = Some c1 \<and> step e c1 = Some c')"
  by (auto simp: run_append bind_eq_Some_conv split: option.splits)

lemma run_induct [consumes 1, case_names init step]:
  assumes "run evs c0 = Some c"
    and "P [] c0"
    and "\<And>evs c e c'. run evs c0 = Some c \<Longrightarrow> P evs c \<Longrightarrow> step e c = Some c' \<Longrightarrow> P (evs @ [e]) c'"
  shows "P evs c"
  using assms(1)
proof (induction evs arbitrary: c rule: rev_induct)
  case Nil
  then show ?case using assms(2) by simp
next
  case (snoc e evs)
  from snoc.prems obtain c1 where "run evs c0 = Some c1" "step e c1 = Some c"
    by (auto simp: run_snoc)
  then show ?case using snoc.IH assms(3) by blast
qed

lemma reach_inv:
  assumes "run evs new_client = Some c"
  shows "inv_req c \<and> inv_chan c"
  using assms
  by (induction rule: run_induct)
     (auto simp: inv_req_new inv_chan_new intro: inv_req_step inv_chan_step)




lemma run_np: "run post c2 = Some c \<Longrightarrow> panicked c = None \<Longrightarrow> panicked c2 = None"
  by (cases post) (auto simp: step_def split: option.splits if_splits)

lemma run_split:
  "run (pre @ e # post) c0 = Some c \<longleftrightarrow>
     (\<exists>c1 c2. run pre c0 = Some c1 \<and> step e c1 = Some c2 \<and> run post c2 = Some c)"
  by (auto simp: run_append bind_eq_Some_conv split: option.splits)

section \<open>Abandon\<close>

text \<open>
  C3. When the dispatch loop receives an AbandonRequest carrying target id \<open>t\<close>: if \<open>t\<close>
  is registered, the cancellation handle stored under \<open>t\<close> is invoked and the entry is
  removed; if \<open>t\<close> is not registered the client is left exactly as it was. In both
  cases no entry is added to the registry, no request processor is created, the join
  counter is untouched, nothing is handed to the writer or put on the wire, and the
  loop carries on.
\<close>

theorem abandon_dispatch:
  assumes "step (Recv m) c = Some c'" and "protocolOp m = AbandonRequest t"
  shows "(\<forall>h. registry c t = Some h \<longrightarrow>
            h \<in> cancelled c' \<and> registry c' = (registry c)(t := None)) \<and>
         (registry c t = None \<longrightarrow> c' = c) \<and>
         dom (registry c') \<subseteq> dom (registry c) \<and>
         requests c' = requests c \<and> next_hid c' = next_hid c \<and> wg c' = wg c \<and>
         chanOut c' = chanOut c \<and> writer_pc c' = writer_pc c \<and> wire c' = wire c \<and>
         serve_pc c' = DLoop \<and> panicked c' = None"
proof -
  from assms have c': "c' = cancelMessageID t c"
    and pc: "serve_pc c = DLoop" "panicked c = None"
    by (auto simp: step_def at_pc_def dispatch_def split: if_splits)
  show ?thesis
  proof (cases "registry c t")
    case None
    with c' pc show ?thesis by (simp add: cancelMessageID_miss)
  next
    case (Some h)
    with c' pc cancelMessageID_hit[OF Some] show ?thesis
      by (auto simp: cancelMessageID_def split: option.splits if_splits)
  qed
qed

theorem abandon_dispatch_witness:
  "registry abandon_example 7 = Some 0 \<and>
   0 \<in> cancelled (cancelMessageID 7 abandon_example) \<and>
   registry (cancelMessageID 7 abandon_example) 7 = None \<and>
   registry abandon_example 9 = None \<and>
   cancelMessageID 9 abandon_example = abandon_example"
  using abandon_dispatch[of "\<lparr>messageID = 8, protocolOp = AbandonRequest 7\<rparr>"
          abandon_example "cancelMessageID 7 abandon_example" 7]
        abandon_dispatch[of "\<lparr>messageID = 8, protocolOp = AbandonRequest 9\<rparr>"
          abandon_example "cancelMessageID 9 abandon_example" 9]
  by (simp add: step_def at_pc_def dispatch_def abandon_example_def serve_begin_def
        new_client_def registry_def cancelMessageID_def)

section \<open>The close protocol\<close>

lemma step_np: "step e c = Some c' \<Longrightarrow> panicked c = None"
  by (simp add: step_def split: if_splits)

lemma close_event_stage:
  assumes "step e c = Some c'" "is_close e"
  shows "close_stage (serve_pc c) < 8 \<and> close_order ! close_stage (serve_pc c) = e \<and>
         (panicked c' = None \<longrightarrow> close_stage (serve_pc c') = Suc (close_stage (serve_pc c)))"
  using assms by (cases rule: step_cases) (auto simp: close_order_def)

lemma other_event_stage:
  assumes "step e c = Some c'" "\<not> is_close e"
  shows "close_stage (serve_pc c') = close_stage (serve_pc c)"
  using assms by (cases rule: step_cases) auto

lemma close_prefix:
  assumes "run evs new_client = Some c"
  shows "\<exists>k. filter is_close evs = take k close_order \<and>
             (panicked c = None \<longrightarrow> k = close_stage (serve_pc c))"
  using assms
proof (induction rule: run_induct)
  case init
  then show ?case by (simp add: new_client_def)
next
  case (step evs c e c')
  then obtain k where k: "filter is_close evs = take k close_order"
    "panicked c = None \<longrightarrow> k = close_stage (serve_pc c)" by auto
  have np: "panicked c = None" using step.hyps(2) by (rule step_np)
  show ?case
  proof (cases "is_close e")
    case True
    from close_event_stage[OF step.hyps(2) True] k np
    have a: "k < length close_order" "close_order ! k = e"
      and b: "panicked c' = None \<longrightarrow> close_stage (serve_pc c') = Suc k"
      by (auto simp: close_order_def)
    have "filter is_close (evs @ [e]) = take (Suc k) close_order"
      using True k(1) a by (simp add: take_Suc_conv_app_nth)
    with b show ?thesis by metis
  next
    case False
    from other_event_stage[OF step.hyps(2) False] k np False show ?thesis by auto
  qed
qed

lemma past_join_step:
  assumes "step x c = Some c'" "inv_req c" "past_join (serve_pc c)"
  shows "\<not> is_request_event x \<and> past_join (serve_pc c')"
proof -
  have fin: "\<And>h p. requests c h = Some p \<Longrightarrow> p = HFinished"
    using assms(2,3) by (auto simp: inv_req_def live_of_def)
  from assms(1) show ?thesis
    by (cases rule: step_cases) (use assms(3) in \<open>auto dest: fin\<close>)
qed

lemma after_join_no_request:
  assumes "run post c2 = Some c" "inv_req c2" "past_join (serve_pc c2)"
  shows "\<forall>x\<in>set post. \<not> is_request_event x"
  using assms
proof (induction post arbitrary: c2)
  case Nil
  then show ?case by simp
next
  case (Cons x post)
  from Cons.prems(1) obtain c3 where s: "step x c2 = Some c3" and r: "run post c3 = Some c"
    by (auto split: option.splits)
  from past_join_step[OF s Cons.prems(2,3)] inv_req_step[OF Cons.prems(2) s] Cons.IH[OF r]
  show ?case by simp
qed

lemma count_close_event:
  assumes "filter is_close evs = take k close_order" "is_close x"
  shows "length (filter ((=) x) evs) \<le> length (filter ((=) x) close_order)"
proof -
  have "filter ((=) x) evs = filter ((=) x) (filter is_close evs)"
    unfolding filter_filter using assms(2) by (intro filter_cong refl) auto
  also have "\<dots> = filter ((=) x) (take k close_order)" using assms(1) by simp
  finally have "length (filter ((=) x) evs) = length (filter ((=) x) (take k close_order))"
    by simp
  moreover have "length (filter ((=) x) (take k close_order)) \<le> length (filter ((=) x) close_order)"
  proof -
    have "filter ((=) x) close_order =
          filter ((=) x) (take k close_order) @ filter ((=) x) (drop k close_order)"
      by (metis append_take_drop_id filter_append)
    then show ?thesis by simp
  qed
  ultimately show ?thesis by simp
qed

lemma close_events_in_order:
  assumes "run evs new_client = Some c"
  shows "(\<exists>k. filter is_close evs = take k close_order) \<and>
         (panicked c = None \<longrightarrow>
            filter is_close evs = take (close_stage (serve_pc c)) close_order) \<and>
         length (filter ((=) CloseQueue) evs) \<le> 1 \<and>
         length (filter ((=) CloseSocket) evs) \<le> 1 \<and>
         (\<forall>pre e post. evs = pre @ e # post \<and> (e = CloseQueue \<or> e = CloseSocket) \<longrightarrow>
            (\<forall>x\<in>set post. \<not> is_request_event x) \<and>
            (\<forall>c1. run pre new_client = Some c1 \<longrightarrow> live_of (requests c1) = {}))"
proof -
  from close_prefix[OF assms] obtain k where k: "filter is_close evs = take k close_order"
    "panicked c = None \<longrightarrow> k = close_stage (serve_pc c)" by auto
  have q: "length (filter ((=) CloseQueue) evs) \<le> 1"
    using count_close_event[OF k(1), of CloseQueue] by (simp add: close_order_def)
  have s: "length (filter ((=) CloseSocket) evs) \<le> 1"
    using count_close_event[OF k(1), of CloseSocket] by (simp add: close_order_def)
  have late: "(\<forall>x\<in>set post. \<not> is_request_event x) \<and>
              (\<forall>c1. run pre new_client = Some c1 \<longrightarrow> live_of (requests c1) = {})"
    if split: "evs = pre @ e # post" and e: "e = CloseQueue \<or> e = CloseSocket" for pre e post
  proof -
    from assms split obtain c1 c2 where r1: "run pre new_client = Some c1"
      and st: "step e c1 = Some c2" and r2: "run post c2 = Some c"
      by (auto simp: run_append bind_eq_Some_conv split: option.splits)
    have i1: "inv_req c1" using reach_inv[OF r1] by simp
    have pj: "past_join (serve_pc c1)"
      using st e by (cases rule: step_cases) auto
    have l: "live_of (requests c1) = {}" using i1 pj by (simp add: inv_req_def)
    from past_join_step[OF st i1 pj] inv_req_step[OF i1 st] after_join_no_request[OF r2]
    have "\<forall>x\<in>set post. \<not> is_request_event x" by simp
    with l r1 show ?thesis by simp
  qed
  from k q s late show ?thesis by blast
qed

text \<open>
  C1. The code breaks the claim on a run it can really take. After a read error the dispatch loop leaves for
  \<open>close\<close>, which cancels the registered request, clears the registry and passes the
  join wait with the counter at zero. The shutdown signal arrives; \<open>close\<close> closes the
  outbound queue; only then does the shutdown watcher take its shutdown branch, add
  itself to the join counter that is no longer waited on, and send the notice on the
  closed queue. The send panics: the socket is never closed, the server's join counter
  is never released, and no task moves afterwards.
\<close>

theorem close_race_panics:
  "observe serve_pc (take 4 close_race_example) = Some DEmitClosing \<and>
   observe cancelled (take 7 close_race_example) = Some {0} \<and>
   observe registered (take 7 close_race_example) = Some {} \<and>
   observe readDeadlines (take 7 close_race_example) = Some 1 \<and>
   observe closing (take 7 close_race_example) = Some ChClosed \<and>
   observe wg (take 11 close_race_example) = Some 0 \<and>
   observe serve_pc (take 11 close_race_example) = Some DCloseQueue \<and>
   observe chanOut (take 13 close_race_example) = Some ChClosed \<and>
   observe wg (take 14 close_race_example) = Some 1 \<and>
   observe panicked (take 14 close_race_example) = Some None \<and>
   observe panicked close_race_example = Some (Some SendOnClosedChannel) \<and>
   observe serve_pc close_race_example = Some DWaitWriteDone \<and>
   observe rwc_closed close_race_example = Some 0 \<and>
   observe srv_wg close_race_example = Some 1 \<and>
   run (close_race_example @ [WriterExit]) new_client = None \<and>
   run (close_race_example @ [WaitWriteDone]) new_client = None \<and>
   run (close_race_example @ [CloseSocket]) new_client = None"
  by (simp add: observe_def registered_def close_race_example_def run_defs)

section \<open>The Notice of Disconnection\<close>











section \<open>Unbind\<close>

lemma in_close_step:
  assumes "step x c = Some c'" "in_close (serve_pc c)"
  shows "\<not> is_read x \<and> in_close (serve_pc c') \<and> next_hid c' = next_hid c \<and>
         (requests c h = None \<longrightarrow> requests c' h = None)"
  using assms by (cases rule: step_cases) auto

lemma in_close_run:
  assumes "run post c1 = Some c2" "in_close (serve_pc c1)"
  shows "filter is_read post = [] \<and> in_close (serve_pc c2) \<and> next_hid c2 = next_hid c1 \<and>
         (requests c1 h = None \<longrightarrow> requests c2 h = None)"
  using assms
proof (induction post arbitrary: c1)
  case Nil
  then show ?case by simp
next
  case (Cons x post)
  from Cons.prems(1) obtain c3 where s: "step x c1 = Some c3" and r: "run post c3 = Some c2"
    by (auto split: option.splits)
  from in_close_step[OF s Cons.prems(2), of h] Cons.IH[OF r] show ?case by simp
qed

lemma closed_socket_step:
  assumes "step x c = Some c'" "0 < rwc_closed c"
  shows "wire c' = wire c \<and> 0 < rwc_closed c'"
  using assms by (cases rule: step_cases) auto

lemma closed_socket_run:
  assumes "run post c1 = Some c2" "0 < rwc_closed c1"
  shows "wire c2 = wire c1"
  using assms
proof (induction post arbitrary: c1)
  case Nil
  then show ?case by simp
next
  case (Cons x post)
  from Cons.prems(1) obtain c3 where s: "step x c1 = Some c3" and r: "run post c3 = Some c2"
    by (auto split: option.splits)
  from closed_socket_step[OF s Cons.prems(2)] Cons.IH[OF r] show ?case by simp
qed

text \<open>
  C4 (as amended). When the dispatch loop receives an UnbindRequest it leaves the loop
  for the close protocol without handing anything to the writer, without creating a
  request processor and without touching the registry or the join counter. In every
  continuation no further message is read or dispatched, the dispatch task stays in
  the close protocol and no new request processor appears. Once the socket has been
  closed the wire does not change any more.
\<close>

theorem unbind_exits_loop:
  assumes "step (Recv m) c = Some c1" "protocolOp m = UnbindRequest" "run post c1 = Some c2"
  shows "serve_pc c1 = DEmitClosing \<and> wire c1 = wire c \<and> writer_pc c1 = writer_pc c \<and>
         requests c1 = requests c \<and> wg c1 = wg c \<and> requestCancel c1 = requestCancel c \<and>
         filter is_read post = [] \<and> in_close (serve_pc c2) \<and> next_hid c2 = next_hid c \<and>
         (\<forall>h. requests c h = None \<longrightarrow> requests c2 h = None) \<and>
         (\<forall>post' c3. 0 < rwc_closed c2 \<and> run post' c2 = Some c3 \<longrightarrow> wire c3 = wire c2)"
proof -
  from assms(1,2) have c1: "c1 = c\<lparr>serve_pc := DEmitClosing\<rparr>"
    by (cases rule: step_cases) auto
  then have ic: "in_close (serve_pc c1)" by simp
  have "\<forall>post' c3. 0 < rwc_closed c2 \<and> run post' c2 = Some c3 \<longrightarrow> wire c3 = wire c2"
    using closed_socket_run by blast
  with in_close_run[OF assms(3) ic] c1 show ?thesis by simp
qed

theorem unbind_exits_loop_witness:
  "serve_pc (dispatch \<lparr>messageID = 2, protocolOp = UnbindRequest\<rparr> abandon_example) = DEmitClosing \<and>
   filter is_read unbind_close_example = [] \<and>
   map_option rwc_closed
     (run unbind_close_example
        (dispatch \<lparr>messageID = 2, protocolOp = UnbindRequest\<rparr> abandon_example)) = Some 1 \<and>
   map_option wire
     (run (unbind_close_example @ [ReleaseServer])
        (dispatch \<lparr>messageID = 2, protocolOp = UnbindRequest\<rparr> abandon_example)) =
   map_option wire
     (run unbind_close_example
        (dispatch \<lparr>messageID = 2, protocolOp = UnbindRequest\<rparr> abandon_example))"
proof -
  let ?m = "\<lparr>messageID = 2, protocolOp = UnbindRequest\<rparr>"
  have s: "step (Recv ?m) abandon_example = Some (dispatch ?m abandon_example)"
    by (simp add: abandon_example_def run_defs)
  obtain c2 where r: "run unbind_close_example (dispatch ?m abandon_example) = Some c2"
    "rwc_closed c2 = 1"
    by (simp add: unbind_close_example_def abandon_example_def run_defs)
  obtain c3 where r3f:
    "run (unbind_close_example @ [ReleaseServer]) (dispatch ?m abandon_example) = Some c3"
    by (simp add: unbind_close_example_def abandon_example_def run_defs)
  have r3: "run [ReleaseServer] c2 = Some c3"
    using r3f r(1) by (simp add: run_append)
  have pm: "protocolOp ?m = UnbindRequest" by simp
  note t = unbind_exits_loop[OF s pm r(1)]
  have a: "serve_pc (dispatch ?m abandon_example) = DEmitClosing"
    "filter is_read unbind_close_example = []"
    using t by simp_all
  have "\<forall>post' c3. 0 < rwc_closed c2 \<and> run post' c2 = Some c3 \<longrightarrow> wire c3 = wire c2"
    using t by (elim conjE) assumption
  from this[rule_format, of "[ReleaseServer]" c3] r(2) r3 have "wire c3 = wire c2" by simp
  with a r r3f show ?thesis by simp
qed

text \<open>
  A request processor that was started before the Unbind still writes after it.
\<close>

theorem unbind_exits_loop_counterexample:
  "observe wire (take 4 unbind_late_write_example) = Some [] \<and>
   observe serve_pc (take 4 unbind_late_write_example) = Some DEmitClosing \<and>
   observe wire unbind_late_write_example =
     Some [\<lparr>messageID = 5, protocolOp = SearchResultEntry ''cn=a''\<rparr>] \<and>
   observe panicked unbind_late_write_example = Some None"
  by (simp add: observe_def unbind_late_write_example_def run_defs SetMessageID_def
        NewLDAPMessageWithProtocolOp_def)

section \<open>StartTLS\<close>

lemma inline_step:
  assumes "step x c = Some c'" "serve_pc c = DInline h" "x \<noteq> HDone h"
  shows "\<not> is_read x \<and> serve_pc c' = DInline h \<and> next_hid c' = next_hid c"
  using assms by (cases rule: step_cases) auto

lemma inline_run:
  assumes "run post c1 = Some c2" "serve_pc c1 = DInline h" "HDone h \<notin> set post"
  shows "filter is_read post = [] \<and> serve_pc c2 = DInline h \<and> next_hid c2 = next_hid c1"
  using assms
proof (induction post arbitrary: c1)
  case Nil
  then show ?case by simp
next
  case (Cons x post)
  from Cons.prems(1) obtain c3 where s: "step x c1 = Some c3" and r: "run post c3 = Some c2"
    by (auto split: option.splits)
  from Cons.prems(3) have n: "x \<noteq> HDone h" "HDone h \<notin> set post" by auto
  from inline_step[OF s Cons.prems(2) n(1)] Cons.IH[OF r _ n(2)] show ?case by simp
qed

lemma lifecycle_step:
  assumes "step e c = Some c'" "requests c h \<noteq> None" "h < next_hid c"
  shows "requests c' h \<noteq> None \<and> h < next_hid c' \<and>
         (is_lifecycle h e \<longrightarrow>
            request_stage (requests c h) < 4 \<and>
            lifecycle h ! request_stage (requests c h) = e \<and>
            (panicked c' = None \<longrightarrow>
               request_stage (requests c' h) = Suc (request_stage (requests c h)))) \<and>
         (\<not> is_lifecycle h e \<longrightarrow>
            request_stage (requests c' h) = request_stage (requests c h))"
  using assms by (cases rule: step_cases) (auto simp: lifecycle_def)

lemma lifecycle_prefix:
  assumes "run post c1 = Some c2" "requests c1 h = Some (HStarted mid)" "h < next_hid c1"
  shows "\<exists>k. filter (is_lifecycle h) post = take k (lifecycle h) \<and>
             (panicked c2 = None \<longrightarrow> k = request_stage (requests c2 h)) \<and>
             requests c2 h \<noteq> None \<and> h < next_hid c2"
  using assms(1)
proof (induction rule: run_induct)
  case init
  then show ?case using assms(2,3) by (auto intro: exI[of _ 0])
next
  case (step evs c e c')
  then obtain k where k: "filter (is_lifecycle h) evs = take k (lifecycle h)"
    "panicked c = None \<longrightarrow> k = request_stage (requests c h)"
    "requests c h \<noteq> None" "h < next_hid c" by auto
  have np: "panicked c = None" using step.hyps(2) by (rule step_np)
  note ls = lifecycle_step[OF step.hyps(2) k(3,4)]
  show ?case
  proof (cases "is_lifecycle h e")
    case True
    from ls True k np
    have a: "k < length (lifecycle h)" "lifecycle h ! k = e"
      and b: "panicked c' = None \<longrightarrow> request_stage (requests c' h) = Suc k"
      by (auto simp: lifecycle_def)
    have "filter (is_lifecycle h) (evs @ [e]) = take (Suc k) (lifecycle h)"
      using True k(1) a by (simp add: take_Suc_conv_app_nth)
    with b ls show ?thesis by metis
  next
    case False
    from ls k np False show ?thesis by auto
  qed
qed

lemma lifecycle_done:
  assumes "HDone h \<in> set (take k (lifecycle h))"
  shows "take k (lifecycle h) = lifecycle h \<and> 4 \<le> k"
proof (cases "4 \<le> k")
  case True
  then show ?thesis by (simp add: lifecycle_def)
next
  case False
  then have "k = 0 \<or> k = 1 \<or> k = 2 \<or> k = 3" by arith
  with assms show ?thesis by (auto simp: lifecycle_def)
qed

lemma request_stage_finished: "request_stage r = 4 \<Longrightarrow> r = Some HFinished"
  by (cases r rule: request_stage.cases) simp_all

text \<open>
  C5. When the dispatch loop receives an ExtendedRequest whose name is the StartTLS OID,
  it adds one to the join counter and becomes the request processor for that message
  itself: the dispatch task stands at \<open>DInline h\<close> for the new processor \<open>h\<close>, and no
  other task is created. In every continuation the steps of \<open>h\<close> come in the order
  register, return of the handler, deregister, done. As long as \<open>h\<close> has not finished,
  no message is read or dispatched. A read can only come after \<open>h\<close> has taken all four
  steps, the return of its handler among them, and then \<open>h\<close> is finished.
\<close>

theorem starttls_inline:
  assumes "step (Recv m) c = Some c1" "protocolOp m = ExtendedRequest NoticeOfStartTLS"
    "run post c1 = Some c2"
  shows "wg c1 = wg c + 1 \<and> serve_pc c1 = DInline (next_hid c) \<and>
         requests c1 = (requests c)(next_hid c \<mapsto> HStarted (messageID m)) \<and>
         next_hid c1 = Suc (next_hid c) \<and>
         writer_pc c1 = writer_pc c \<and> watch_pc c1 = watch_pc c \<and>
         (\<exists>k. filter (is_lifecycle (next_hid c)) post = take k (lifecycle (next_hid c))) \<and>
         (HDone (next_hid c) \<notin> set post \<longrightarrow>
            filter is_read post = [] \<and> serve_pc c2 = DInline (next_hid c) \<and>
            next_hid c2 = next_hid c1) \<and>
         (panicked c2 = None \<and> requests c2 (next_hid c) \<noteq> Some HFinished \<longrightarrow>
            filter is_read post = [] \<and> serve_pc c2 = DInline (next_hid c)) \<and>
         (\<forall>pre x post'. post = pre @ x # post' \<and> is_read x \<longrightarrow>
            HDone (next_hid c) \<in> set pre \<and> HReturn (next_hid c) \<in> set pre \<and>
            filter (is_lifecycle (next_hid c)) pre = lifecycle (next_hid c) \<and>
            (\<forall>c3. run pre c1 = Some c3 \<longrightarrow> requests c3 (next_hid c) = Some HFinished))"
proof -
  let ?h = "next_hid c"
  from assms(1,2) have c1: "c1 = c\<lparr>wg := wg c + 1,
      requests := (requests c)(next_hid c \<mapsto> HStarted (messageID m)),
      next_hid := Suc (next_hid c), serve_pc := DInline (next_hid c)\<rparr>"
    by (cases rule: step_cases) auto
  then have pc: "serve_pc c1 = DInline ?h"
    and st: "requests c1 ?h = Some (HStarted (messageID m))" and lt: "?h < next_hid c1"
    by simp_all
  from lifecycle_prefix[OF assms(3) st lt] obtain k where
    k: "filter (is_lifecycle ?h) post = take k (lifecycle ?h)"
       "panicked c2 = None \<longrightarrow> k = request_stage (requests c2 ?h)" by auto
  have unfinished: "filter is_read post = [] \<and> serve_pc c2 = DInline ?h"
    if np: "panicked c2 = None" and nf: "requests c2 ?h \<noteq> Some HFinished"
  proof -
    have "HDone ?h \<notin> set post"
    proof
      assume d: "HDone ?h \<in> set post"
      then have "HDone ?h \<in> set (filter (is_lifecycle ?h) post)" by simp
      with k(1) lifecycle_done[of ?h k] have "take k (lifecycle ?h) = lifecycle ?h" "4 \<le> k"
        by simp_all
      moreover have "k \<le> 4"
      proof -
        have "length (take k (lifecycle ?h)) = 4"
          using \<open>take k (lifecycle ?h) = lifecycle ?h\<close> by (simp add: lifecycle_def)
        from k(2) np have "k = request_stage (requests c2 ?h)" by simp
        then show ?thesis by (cases "requests c2 ?h" rule: request_stage.cases) simp_all
      qed
      ultimately have "request_stage (requests c2 ?h) = 4" using k(2) np by simp
      with request_stage_finished nf show False by blast
    qed
    with inline_run[OF assms(3) pc] show ?thesis by simp
  qed
  have later: "HDone ?h \<in> set pre \<and> HReturn ?h \<in> set pre \<and>
               filter (is_lifecycle ?h) pre = lifecycle ?h \<and>
               (\<forall>c3. run pre c1 = Some c3 \<longrightarrow> requests c3 ?h = Some HFinished)"
    if sp: "post = pre @ x # post'" and rd: "is_read x" for pre x post'
  proof -
    from assms(3) sp obtain c3 c4 where r: "run pre c1 = Some c3" and s: "step x c3 = Some c4"
      by (auto simp: run_split)
    have d: "HDone ?h \<in> set pre"
    proof (rule ccontr)
      assume n: "HDone ?h \<notin> set pre"
      from inline_run[OF r pc n] have "serve_pc c3 = DInline ?h" by simp
      with s rd show False by (cases rule: step_cases) auto
    qed
    from lifecycle_prefix[OF r st lt] obtain j where
      j: "filter (is_lifecycle ?h) pre = take j (lifecycle ?h)"
         "panicked c3 = None \<longrightarrow> j = request_stage (requests c3 ?h)" by auto
    from d have "HDone ?h \<in> set (filter (is_lifecycle ?h) pre)" by simp
    with j(1) lifecycle_done[of ?h j]
    have full: "filter (is_lifecycle ?h) pre = lifecycle ?h" and j4: "4 \<le> j" by simp_all
    have "HReturn ?h \<in> set (filter (is_lifecycle ?h) pre)"
      unfolding full by (simp add: lifecycle_def)
    then have ret: "HReturn ?h \<in> set pre" by simp
    have np3: "panicked c3 = None" using s by (rule step_np)
    with j(2) have "j = request_stage (requests c3 ?h)" by simp
    moreover have "request_stage (requests c3 ?h) \<le> 4"
      by (cases "requests c3 ?h" rule: request_stage.cases) simp_all
    ultimately have "request_stage (requests c3 ?h) = 4" using j4 by simp
    then have "requests c3 ?h = Some HFinished" by (rule request_stage_finished)
    with d ret full r show ?thesis by simp
  qed
  have first: "wg c1 = wg c + 1 \<and> serve_pc c1 = DInline ?h \<and>
         requests c1 = (requests c)(?h \<mapsto> HStarted (messageID m)) \<and>
         next_hid c1 = Suc ?h \<and> writer_pc c1 = writer_pc c \<and> watch_pc c1 = watch_pc c"
    using c1 by simp
  from first k(1) inline_run[OF assms(3) pc] unfinished later show ?thesis by blast
qed

theorem starttls_inline_witness:
  "serve_pc (dispatch \<lparr>messageID = 1, protocolOp = ExtendedRequest NoticeOfStartTLS\<rparr>
      starttls_example) = DInline 0 \<and>
   wg (dispatch \<lparr>messageID = 1, protocolOp = ExtendedRequest NoticeOfStartTLS\<rparr>
      starttls_example) = 1 \<and>
   filter (is_lifecycle 0) (take 6 starttls_run_example) = lifecycle 0 \<and>
   HReturn 0 \<in> set (take 6 starttls_run_example) \<and>
   run starttls_run_example
     (dispatch \<lparr>messageID = 1, protocolOp = ExtendedRequest NoticeOfStartTLS\<rparr>
        starttls_example) \<noteq> None \<and>
   run [HRegister 0, Recv \<lparr>messageID = 2, protocolOp = BindRequest ''u'' ''p''\<rparr>]
     (dispatch \<lparr>messageID = 1, protocolOp = ExtendedRequest NoticeOfStartTLS\<rparr>
        starttls_example) = None"
proof -
  let ?m = "\<lparr>messageID = 1, protocolOp = ExtendedRequest NoticeOfStartTLS\<rparr>"
  have s: "step (Recv ?m) starttls_example = Some (dispatch ?m starttls_example)"
    by (simp add: starttls_example_def run_defs)
  have nh: "next_hid starttls_example = 0" "wg starttls_example = 0"
    by (simp_all add: starttls_example_def run_defs)
  obtain c2 where r: "run starttls_run_example (dispatch ?m starttls_example) = Some c2"
    by (simp add: starttls_run_example_def starttls_example_def run_defs)
  have q: "run [HRegister 0, Recv \<lparr>messageID = 2, protocolOp = BindRequest ''u'' ''p''\<rparr>]
     (dispatch ?m starttls_example) = None"
    by (simp add: starttls_example_def run_defs)
  have sp: "starttls_run_example = take 6 starttls_run_example @
      Recv \<lparr>messageID = 2, protocolOp = BindRequest ''u'' ''p''\<rparr> # []"
    by (simp add: starttls_run_example_def)
  note t = starttls_inline[OF s _ r]
  have a: "serve_pc (dispatch ?m starttls_example) = DInline 0"
    "wg (dispatch ?m starttls_example) = 1"
    using t nh by simp_all
  have l: "\<forall>pre x post'. starttls_run_example = pre @ x # post' \<and> is_read x \<longrightarrow>
            HDone 0 \<in> set pre \<and> HReturn 0 \<in> set pre \<and>
            filter (is_lifecycle 0) pre = lifecycle 0 \<and>
            (\<forall>c3. run pre (dispatch ?m starttls_example) = Some c3 \<longrightarrow>
               requests c3 0 = Some HFinished)"
    using t nh by simp
  from l[rule_format, of "take 6 starttls_run_example"
      "Recv \<lparr>messageID = 2, protocolOp = BindRequest ''u'' ''p''\<rparr>" "[]"] sp
  have "HReturn 0 \<in> set (take 6 starttls_run_example) \<and>
        filter (is_lifecycle 0) (take 6 starttls_run_example) = lifecycle 0"
    by simp
  with a r q show ?thesis by simp
qed

section \<open>A connection that gets no handler\<close>

text \<open>
  C6. When \<open>HandleConnection\<close> returns no handler, \<open>serve\<close> returns before the outbound
  queue and the write-complete channel are made, and the deferred \<open>close\<close> runs on nil
  channels: after the join wait it closes the nil \<open>chanOut\<close>, which panics. The socket
  is not closed and the server's join counter is not released.
\<close>

theorem nil_handler_close_panics:
  "observe serve_pc (take 1 nil_handler_example) = Some DEmitClosing \<and>
   observe chanOut (take 5 nil_handler_example) = Some ChNil \<and>
   observe serve_pc (take 5 nil_handler_example) = Some DCloseQueue \<and>
   observe panicked (take 5 nil_handler_example) = Some None \<and>
   observe panicked nil_handler_example = Some (Some CloseOfNilChannel) \<and>
   observe rwc_closed nil_handler_example = Some 0 \<and>
   observe srv_wg nil_handler_example = Some 1"
  by (simp add: observe_def nil_handler_example_def run_defs)

section \<open>Writing after the queue is closed\<close>

text \<open>
  C7 (as amended). A write through the response writer on a closed outbound queue is
  not swallowed: it panics with a send on a closed channel, hands nothing to the
  writer, puts nothing on the wire, and no task moves afterwards. In every
  interleaving, once the queue is closed no request processor of the session is live,
  so only a writer kept beyond the handler's return can meet the closed queue.
\<close>

theorem Write_on_closed_queue:
  "(chanOut c = ChClosed \<longrightarrow>
      Write w po c = Some (panics SendOnClosedChannel c) \<and>
      panicked (panics SendOnClosedChannel c) = Some SendOnClosedChannel \<and>
      wire (panics SendOnClosedChannel c) = wire c \<and>
      writer_pc (panics SendOnClosedChannel c) = writer_pc c \<and>
      (\<forall>e. step e (panics SendOnClosedChannel c) = None)) \<and>
   (\<forall>evs. run evs new_client = Some c \<and> chanOut c = ChClosed \<longrightarrow>
      live_of (requests c) = {})"
proof -
  have a: "live_of (requests c) = {}" if r: "run evs new_client = Some c"
    and q: "chanOut c = ChClosed" for evs
  proof -
    from reach_inv[OF r] q have "inv_req c" "queue_closed_pc (serve_pc c)"
      by (auto simp: inv_chan_def)
    moreover have "past_join (serve_pc c)"
      using \<open>queue_closed_pc (serve_pc c)\<close> by (cases "serve_pc c") auto
    ultimately show ?thesis by (simp add: inv_req_def)
  qed
  show ?thesis using a
    by (auto simp: Write_def chanOut_send_def panics_def step_def)
qed

theorem Write_on_closed_queue_witness:
  "observe chanOut closed_queue_example = Some ChClosed \<and>
   observe panicked closed_queue_example = Some None \<and>
   map_option wire
     (Option.bind (run closed_queue_example new_client)
        (Write \<lparr>w_messageID = 1\<rparr> (BindResponse 0))) = Some [] \<and>
   map_option panicked
     (Option.bind (run closed_queue_example new_client)
        (Write \<lparr>w_messageID = 1\<rparr> (BindResponse 0))) = Some (Some SendOnClosedChannel)"
proof -
  obtain c where r: "run closed_queue_example new_client = Some c" "chanOut c = ChClosed"
    "panicked c = None" "wire c = []"
    by (simp add: closed_queue_example_def run_defs)
  from Write_on_closed_queue[of c "\<lparr>w_messageID = 1\<rparr>" "BindResponse 0"] r
  show ?thesis by (simp add: observe_def panics_def)
qed

text \<open>
  After the close protocol has closed the queue, a write does not leave the process
  unharmed.
\<close>

theorem Write_on_closed_queue_counterexample:
  "map_option panicked
     (Option.bind (run closed_queue_example new_client)
        (Write \<lparr>w_messageID = 1\<rparr> (BindResponse 0))) \<noteq> Some None"
  by (simp add: closed_queue_example_def run_defs)

section \<open>The request registry\<close>














section \<open>The response writer\<close>



section \<open>A message id used twice\<close>

text \<open>
  C10. Two request processors for the same message id: the second registration
  replaces the first handle under that id. When either of the two returns and
  deregisters, the entry is gone while the other is still serving, and an Abandon for
  that id then changes nothing and cancels nobody.
\<close>

theorem id_reuse_loses_cancel:
  assumes "panicked c = None" "serve_pc c = DLoop"
    "requests c h1 = Some (HStarted mid)" "requests c h2 = Some (HStarted mid)" "h1 \<noteq> h2"
    "protocolOp m = AbandonRequest mid"
    "(hx = h1 \<and> hy = h2) \<or> (hx = h2 \<and> hy = h1)"
  shows "\<exists>c1 c2 c3. run [HRegister h1] c = Some c1 \<and> registry c1 mid = Some h1 \<and>
           run [HRegister h2] c1 = Some c2 \<and> registry c2 mid = Some h2 \<and>
           run [HReturn hx, HDeregister hx] c2 = Some c3 \<and> registry c3 mid = None \<and>
           requests c3 hy = Some (HServing mid) \<and>
           run [Recv m] c3 = Some c3 \<and> cancelled c3 = cancelled c"
proof -
  let ?c1 = "c\<lparr>requestCancel := Some ((registry c)(mid \<mapsto> h1)),
                requests := (requests c)(h1 \<mapsto> HServing mid)\<rparr>"
  let ?c2 = "?c1\<lparr>requestCancel := Some ((registry ?c1)(mid \<mapsto> h2)),
                requests := (requests ?c1)(h2 \<mapsto> HServing mid)\<rparr>"
  let ?c3 = "?c2\<lparr>requests := (requests ?c2)(hx \<mapsto> HReturned mid)\<rparr>
              \<lparr>requestCancel := map_option (\<lambda>r. r(mid := None)) (requestCancel ?c2),
               requests := ((requests ?c2)(hx \<mapsto> HReturned mid))(hx \<mapsto> HDeregistered mid)\<rparr>"
  have r1: "run [HRegister h1] c = Some ?c1"
    using assms(1,3) by (simp add: step_def process_register_def)
  have g1: "registry ?c1 mid = Some h1" by (simp add: registry_def)
  have r2: "run [HRegister h2] ?c1 = Some ?c2"
    using assms(1,4,5) by (simp add: step_def process_register_def)
  have g2: "registry ?c2 mid = Some h2" by (simp add: registry_def)
  have hxs: "requests ?c2 hx = Some (HServing mid)"
    using assms(5,7) by auto
  have r3: "run [HReturn hx, HDeregister hx] ?c2 = Some ?c3"
    using assms(1) hxs by (simp add: step_def process_return_def process_deregister_def)
  have g3: "registry ?c3 mid = None" by (simp add: registry_def)
  have hys: "requests ?c3 hy = Some (HServing mid)"
    using assms(5,7) by auto
  have r4: "run [Recv m] ?c3 = Some ?c3"
    using assms(1,2,6) g3
    by (simp add: step_def at_pc_def dispatch_def cancelMessageID_miss)
  have cz: "cancelled ?c3 = cancelled c" by simp
  from r1 g1 r2 g2 r3 g3 hys r4 cz show ?thesis by blast
qed

theorem id_reuse_loses_cancel_witness:
  "(\<exists>c1 c2 c3. run [HRegister 0] reuse_example = Some c1 \<and> registry c1 7 = Some 0 \<and>
           run [HRegister 1] c1 = Some c2 \<and> registry c2 7 = Some 1 \<and>
           run [HReturn 0, HDeregister 0] c2 = Some c3 \<and> registry c3 7 = None \<and>
           requests c3 1 = Some (HServing 7) \<and>
           run [Recv \<lparr>messageID = 9, protocolOp = AbandonRequest 7\<rparr>] c3 = Some c3 \<and>
           cancelled c3 = cancelled reuse_example) \<and>
   (\<exists>c1 c2 c3. run [HRegister 0] reuse_example = Some c1 \<and> registry c1 7 = Some 0 \<and>
           run [HRegister 1] c1 = Some c2 \<and> registry c2 7 = Some 1 \<and>
           run [HReturn 1, HDeregister 1] c2 = Some c3 \<and> registry c3 7 = None \<and>
           requests c3 0 = Some (HServing 7) \<and>
           run [Recv \<lparr>messageID = 9, protocolOp = AbandonRequest 7\<rparr>] c3 = Some c3 \<and>
           cancelled c3 = cancelled reuse_example)"
  using id_reuse_loses_cancel[of reuse_example 0 7 1
      "\<lparr>messageID = 9, protocolOp = AbandonRequest 7\<rparr>" 0 1]
    id_reuse_loses_cancel[of reuse_example 0 7 1
      "\<lparr>messageID = 9, protocolOp = AbandonRequest 7\<rparr>" 1 0]
  by (simp add: reuse_example_def serve_begin_def new_client_def)

end
